theory Spec2Isabelle
  imports Main
begin

section \<open>Python values that reach \<open>normalize_chunks\<close>\<close>

text \<open>
  \<open>graphblas/core/utils.py\<close>, \<open>normalize_chunks(chunks, shape)\<close>, inspects its
  arguments with \<open>isinstance\<close>, \<open>is None\<close>, \<open>float.is_integer\<close>, \<open>int(...)\<close>, \<open>len\<close>
  and, for numpy arrays, \<open>dtype\<close>, \<open>ndim\<close>, \<open>(a < 0).any()\<close> and \<open>tolist()\<close>. The values
  are modelled by exactly these observations.

  The three exceptions the function can end with: the two it raises itself, and the
  \<open>ZeroDivisionError\<close> of \<open>divmod(size, 0)\<close>.
\<close>

datatype error = TypeError | ValueError | ZeroDivisionError

text \<open>
  A Python \<open>float\<close>: \<open>FWhole n\<close> is a float \<open>x\<close> with \<open>x.is_integer()\<close> true and
  \<open>int(x) = n\<close>; \<open>FFrac\<close> is a float with \<open>x.is_integer()\<close> false (a fractional value,
  an infinity or a NaN).
\<close>

datatype pyfloat = FWhole int | FFrac

datatype seq_kind = PyList | PyTuple

text \<open>
  \<^item> \<open>PNone\<close>: \<open>None\<close>.
  \<^item> \<open>PInt n\<close>: an instance of \<open>numbers.Integral\<close> (\<open>int\<close>, \<open>bool\<close>, a numpy integer
    scalar) with \<open>int(x) = n\<close>.
  \<^item> \<open>PFloat f\<close>: an instance of \<open>float\<close>.
  \<^item> \<open>PNumber\<close>: an instance of \<open>numbers.Number\<close> that is neither \<open>Integral\<close> nor
    \<open>float\<close> (\<open>complex\<close>, \<open>Fraction\<close>, \<open>Decimal\<close>).
  \<^item> \<open>PSeq k xs\<close>: a \<open>list\<close> or a \<open>tuple\<close> with the items \<open>xs\<close>.
  \<^item> \<open>PIntArray shape items\<close>: a \<open>numpy.ndarray\<close> whose dtype is a subtype of
    \<open>np.integer\<close>, with its shape and its items in row-major order.
  \<^item> \<open>POtherArray shape items\<close>: a \<open>numpy.ndarray\<close> of any other dtype; the items are
    the Python objects \<open>tolist()\<close> yields for them.
  \<^item> \<open>PObj\<close>: any other object; it is no number, sequence or array, and has no \<open>len()\<close>.
\<close>

datatype pyval =
    PNone
  | PInt int
  | PFloat pyfloat
  | PNumber
  | PSeq seq_kind "pyval list"
  | PIntArray "nat list" "int list"
  | POtherArray "nat list" "pyval list"
  | PObj

text \<open>
  \<open>isinstance(c, Integral) or isinstance(c, float) and c.is_integer()\<close>, followed by
  \<open>int(c)\<close>: \<open>Some\<close> of the integer when the test holds (lines 161-162 and 173-174).
\<close>

fun whole :: "pyval \<Rightarrow> int option" where
  "whole (PInt n) = Some n"
| "whole (PFloat (FWhole n)) = Some n"
| "whole _ = None"

text \<open>\<open>isinstance(chunks, Number)\<close> (line 144).\<close>

fun is_number :: "pyval \<Rightarrow> bool" where
  "is_number (PInt _) = True"
| "is_number (PFloat _) = True"
| "is_number PNumber = True"
| "is_number _ = False"

text \<open>
  \<open>ndarray.tolist()\<close>: the items nested along the axes of the shape; an array of no
  dimension yields its single item itself.
\<close>

fun tolist :: "nat list \<Rightarrow> pyval list \<Rightarrow> pyval" where
  "tolist [] items = (case items of [] \<Rightarrow> PNone | x # _ \<Rightarrow> x)"
| "tolist (n # sh) items =
     PSeq PyList (map (\<lambda>i. tolist sh (take (prod_list sh) (drop (i * prod_list sh) items))) [0..<n])"

section \<open>\<open>normalize_chunks\<close>\<close>

text \<open>
  Lines 142-151: the dispatch on the type of \<open>chunks\<close>, which rebinds \<open>chunks\<close> to the
  sequence of per-dimension specifications. \<open>ndim\<close> is \<open>len(shape)\<close>.
  \<^verbatim>\<open>
    if isinstance(chunks, (list, tuple)):
        pass
    elif isinstance(chunks, Number):
        chunks = (chunks,) * len(shape)
    elif isinstance(chunks, np.ndarray):
        chunks = chunks.tolist()
    else:
        raise TypeError(...)
  \<close>
\<close>

fun rebind_chunks :: "pyval \<Rightarrow> nat \<Rightarrow> error + pyval" where
  "rebind_chunks (PSeq k xs) ndim = Inr (PSeq k xs)"
| "rebind_chunks (PInt n) ndim = Inr (PSeq PyTuple (replicate ndim (PInt n)))"
| "rebind_chunks (PFloat f) ndim = Inr (PSeq PyTuple (replicate ndim (PFloat f)))"
| "rebind_chunks PNumber ndim = Inr (PSeq PyTuple (replicate ndim PNumber))"
| "rebind_chunks (PIntArray sh items) ndim = Inr (tolist sh (map PInt items))"
| "rebind_chunks (POtherArray sh items) ndim = Inr (tolist sh items)"
| "rebind_chunks PNone ndim = Inl TypeError"
| "rebind_chunks PObj ndim = Inl TypeError"

text \<open>
  \<open>len(chunks)\<close> and the iteration of \<open>zip(shape, chunks)\<close> need a sequence: what
  \<open>tolist()\<close> yields for an array of no dimension is a scalar, and \<open>len\<close> of it raises
  \<open>TypeError\<close>.
\<close>

fun seq_items :: "pyval \<Rightarrow> error + pyval list" where
  "seq_items (PSeq k xs) = Inr xs"
| "seq_items _ = Inl TypeError"

text \<open>
  Lines 161-168, once the chunk is known to be a whole number \<open>chunk = int(chunk)\<close>:
  \<^verbatim>\<open>
    if chunk < 0:
        raise ValueError(f"Chunksize must be greater than 0; got: {chunk}")
    div, mod = divmod(size, chunk)
    cur_chunks = [chunk] * div
    if mod:
        cur_chunks.append(mod)
  \<close>
  \<open>divmod(size, 0)\<close> raises \<open>ZeroDivisionError\<close>; for a positive divisor Python's floor
  division and modulus are HOL's \<open>div\<close> and \<open>mod\<close> on \<open>int\<close>; a list times a negative
  number is the empty list.
\<close>

definition whole_chunks :: "int \<Rightarrow> int \<Rightarrow> error + int list" where
  "whole_chunks sz chunk =
     (if chunk < 0 then Inl ValueError
      else if chunk = 0 then Inl ZeroDivisionError
      else Inr (replicate (nat (sz div chunk)) chunk
                @ (if sz mod chunk \<noteq> 0 then [sz mod chunk] else [])))"

text \<open>
  Lines 172-189: the loop over the entries of a nested list or tuple, with its two
  variables \<open>cur_chunks\<close> and \<open>none_index\<close>.
  \<^verbatim>\<open>
    for c in chunk:
        if isinstance(c, Integral) or isinstance(c, float) and c.is_integer():
            c = int(c)
            if c < 0:
                raise ValueError(...)
        elif c is None:
            if none_index is not None:
                raise TypeError(...)
            none_index = len(cur_chunks)
            c = 0
        else:
            raise TypeError(...)
        cur_chunks.append(c)
  \<close>
\<close>

fun entries_loop :: "pyval list \<Rightarrow> int list \<Rightarrow> nat option \<Rightarrow> error + (int list \<times> nat option)" where
  "entries_loop [] cur_chunks none_index = Inr (cur_chunks, none_index)"
| "entries_loop (c # cs) cur_chunks none_index =
     (case whole c of
        Some n \<Rightarrow>
          if n < 0 then Inl ValueError
          else entries_loop cs (cur_chunks @ [n]) none_index
      | None \<Rightarrow>
          if c = PNone then
            (case none_index of
               Some _ \<Rightarrow> Inl TypeError
             | None \<Rightarrow> entries_loop cs (cur_chunks @ [0]) (Some (length cur_chunks)))
          else Inl TypeError)"

text \<open>
  Lines 190-197: the placeholder takes what the other entries leave.
  \<^verbatim>\<open>
    if none_index is not None:
        fill = size - sum(cur_chunks)
        if fill < 0:
            raise ValueError(...)
        cur_chunks[none_index] = fill
  \<close>
\<close>

fun fill_rest :: "int \<Rightarrow> int list \<times> nat option \<Rightarrow> error + int list" where
  "fill_rest sz (cur_chunks, None) = Inr cur_chunks"
| "fill_rest sz (cur_chunks, Some none_index) =
     (if sz - sum_list cur_chunks < 0 then Inl ValueError
      else Inr (cur_chunks[none_index := sz - sum_list cur_chunks]))"

text \<open>
  Lines 159-212: the body of the loop over the dimensions, from \<open>size\<close> (here \<open>sz\<close>) and \<open>chunk\<close> to
  \<open>cur_chunks\<close>. The branches are in the order of the source: \<open>None\<close>, a whole number,
  a list or tuple, an array (its dtype is tested before its \<open>ndim\<close>, and that before its
  entries), anything else.
\<close>

fun cur_chunks_of :: "int \<Rightarrow> pyval \<Rightarrow> error + int list" where
  "cur_chunks_of sz PNone = Inr [sz]"
| "cur_chunks_of sz (PInt n) = whole_chunks sz n"
| "cur_chunks_of sz (PFloat (FWhole n)) = whole_chunks sz n"
| "cur_chunks_of sz (PSeq k cs) =
     (case entries_loop cs [] None of
        Inl e \<Rightarrow> Inl e
      | Inr st \<Rightarrow> fill_rest sz st)"
| "cur_chunks_of sz (PIntArray sh items) =
     (if length sh \<noteq> 1 then Inl TypeError
      else if list_ex (\<lambda>x. x < 0) items then Inl ValueError
      else Inr items)"
| "cur_chunks_of sz (POtherArray sh items) = Inl TypeError"
| "cur_chunks_of sz (PFloat FFrac) = Inl TypeError"
| "cur_chunks_of sz PNumber = Inl TypeError"
| "cur_chunks_of sz PObj = Inl TypeError"

text \<open>
  Lines 157-158 and 213: the loop over \<open>zip(shape, chunks)\<close>, which appends each
  \<open>cur_chunks\<close> to \<open>chunksizes\<close> and stops at the first exception.
\<close>

fun dims_loop :: "(int \<times> pyval) list \<Rightarrow> int list list \<Rightarrow> error + int list list" where
  "dims_loop [] chunksizes = Inr chunksizes"
| "dims_loop ((sz, chunk) # rest) chunksizes =
     (case cur_chunks_of sz chunk of
        Inl e \<Rightarrow> Inl e
      | Inr cur_chunks \<Rightarrow> dims_loop rest (chunksizes @ [cur_chunks]))"

text \<open>
  The whole function (lines 127-214). A length of \<open>chunks\<close> other than \<open>len(shape)\<close> is
  a \<open>ValueError\<close> (lines 152-156).
\<close>

definition normalize_chunks :: "pyval \<Rightarrow> int list \<Rightarrow> error + int list list" where
  "normalize_chunks chunks shape =
     (case rebind_chunks chunks (length shape) of
        Inl e \<Rightarrow> Inl e
      | Inr chunks' \<Rightarrow>
          (case seq_items chunks' of
             Inl e \<Rightarrow> Inl e
           | Inr specs \<Rightarrow>
               if length specs \<noteq> length shape then Inl ValueError
               else dims_loop (zip shape specs) []))"

text \<open>
  The per-dimension specifications \<open>normalize_chunks\<close> iterates over, when the dispatch
  on \<open>chunks\<close> yields a sequence.
\<close>

definition dim_specs :: "pyval \<Rightarrow> nat \<Rightarrow> pyval list option" where
  "dim_specs chunks ndim =
     (case rebind_chunks chunks ndim of
        Inl e \<Rightarrow> None
      | Inr chunks' \<Rightarrow> (case seq_items chunks' of Inl e \<Rightarrow> None | Inr specs \<Rightarrow> Some specs))"

section \<open>The mask classes of \<open>grblas/mask.py\<close>\<close>

text \<open>
  The base class \<open>Mask\<close> and its four subclasses. An instance holds one attribute,
  \<open>self.mask\<close>, the wrapped object (of any type \<open>'a\<close>: a reference to a vector or a
  matrix); the three flags are class attributes.
\<close>

datatype 'a mask =
    Mask 'a
  | StructuralMask 'a
  | ValueMask 'a
  | ComplementedStructuralMask 'a
  | ComplementedValueMask 'a

fun mask_of :: "'a mask \<Rightarrow> 'a" where
  "mask_of (Mask m) = m"
| "mask_of (StructuralMask m) = m"
| "mask_of (ValueMask m) = m"
| "mask_of (ComplementedStructuralMask m) = m"
| "mask_of (ComplementedValueMask m) = m"

fun complement_flag :: "'a mask \<Rightarrow> bool" where
  "complement_flag (Mask m) = False"
| "complement_flag (StructuralMask m) = False"
| "complement_flag (ValueMask m) = False"
| "complement_flag (ComplementedStructuralMask m) = True"
| "complement_flag (ComplementedValueMask m) = True"

fun structure_flag :: "'a mask \<Rightarrow> bool" where
  "structure_flag (Mask m) = False"
| "structure_flag (StructuralMask m) = True"
| "structure_flag (ValueMask m) = False"
| "structure_flag (ComplementedStructuralMask m) = True"
| "structure_flag (ComplementedValueMask m) = False"

fun value_flag :: "'a mask \<Rightarrow> bool" where
  "value_flag (Mask m) = False"
| "value_flag (StructuralMask m) = False"
| "value_flag (ValueMask m) = True"
| "value_flag (ComplementedStructuralMask m) = False"
| "value_flag (ComplementedValueMask m) = True"

text \<open>
  \<open>__invert__\<close>, the operator \<open>~\<close>. The base class defines none, so \<open>~Mask(m)\<close> raises
  \<open>TypeError\<close> (bad operand type for unary \<open>~\<close>).
\<close>

fun invert :: "'a mask \<Rightarrow> error + 'a mask" where
  "invert (StructuralMask m) = Inr (ComplementedStructuralMask m)"
| "invert (ValueMask m) = Inr (ComplementedValueMask m)"
| "invert (ComplementedStructuralMask m) = Inr (StructuralMask m)"
| "invert (ComplementedValueMask m) = Inr (ValueMask m)"
| "invert (Mask m) = Inl TypeError"

text \<open>The four subclasses, which are the mask variants that define \<open>__invert__\<close>.\<close>

fun is_variant :: "'a mask \<Rightarrow> bool" where
  "is_variant (Mask m) = False"
| "is_variant _ = True"

section \<open>Properties of \<open>normalize_chunks\<close>\<close>

subsection \<open>The loop over the dimensions\<close>

text \<open>
  The accumulator \<open>chunksizes\<close> only grows at its end, so the loop from any
  accumulator is the loop from the empty one.
\<close>

lemma dims_loop_acc:
  "dims_loop xs acc = map_sum id ((@) acc) (dims_loop xs [])"
proof (induction xs arbitrary: acc)
  case Nil
  then show ?case by simp
next
  case (Cons x xs)
  obtain s c where x: "x = (s, c)" by (cases x)
  show ?case
  proof (cases "cur_chunks_of s c")
    case (Inl e)
    then show ?thesis by (simp add: x)
  next
    case (Inr cur)
    show ?thesis
      using Cons.IH [of "acc @ [cur]"] Cons.IH [of "[cur]"]
      by (cases "dims_loop xs []") (simp_all add: x Inr)
  qed
qed

lemma dims_loop_Cons:
  "dims_loop ((s, c) # xs) [] =
     (case cur_chunks_of s c of
        Inl e \<Rightarrow> Inl e
      | Inr cur \<Rightarrow> map_sum id ((#) cur) (dims_loop xs []))"
  using dims_loop_acc [of xs "[cur]" for cur]
  by (cases "dims_loop xs []") (simp_all split: sum.splits)


lemma dims_loop_map:
  "dims_loop xs [] = Inr out \<longleftrightarrow> map (\<lambda>(s, c). cur_chunks_of s c) xs = map Inr out"
proof (induction xs arbitrary: out)
  case Nil
  then show ?case by auto
next
  case (Cons x xs)
  obtain s c where x: "x = (s, c)" by (cases x)
  show ?case
  proof (cases "cur_chunks_of s c")
    case (Inl e)
    then show ?thesis by (auto simp: x dims_loop_Cons simp del: dims_loop.simps)
  next
    case cur: (Inr cur)
    show ?thesis
    proof (cases "dims_loop xs []")
      case (Inl e)
      with Cons.IH have "\<And>out'. map (\<lambda>(s, c). cur_chunks_of s c) xs \<noteq> map Inr out'"
        by simp
      then show ?thesis by (cases out) (auto simp: x dims_loop_Cons cur Inl simp del: dims_loop.simps)
    next
      case (Inr out')
      with Cons.IH [of out'] have "map (\<lambda>(s, c). cur_chunks_of s c) xs = map Inr out'"
        by blast
      then show ?thesis by (cases out) (auto simp: x dims_loop_Cons cur Inr simp del: dims_loop.simps)
    qed
  qed
qed

lemma dims_loop_Inr_iff:
  assumes "length specs = length shape"
  shows "dims_loop (zip shape specs) [] = Inr out \<longleftrightarrow>
     length out = length shape \<and>
     (\<forall>i < length shape. cur_chunks_of (shape ! i) (specs ! i) = Inr (out ! i))"
  using assms by (auto simp: dims_loop_map list_eq_iff_nth_eq)

lemma dims_loop_first_error:
  assumes "length specs = length shape" and "i < length shape"
    and "cur_chunks_of (shape ! i) (specs ! i) = Inl e"
    and "\<forall>j < i. \<exists>cur. cur_chunks_of (shape ! j) (specs ! j) = Inr cur"
  shows "dims_loop (zip shape specs) [] = Inl e"
  using assms
proof (induction shape specs arbitrary: i rule: list_induct2')
  case (4 s shape c specs)
  show ?case
  proof (cases i)
    case 0
    with 4 show ?thesis by (simp add: dims_loop_Cons del: dims_loop.simps)
  next
    case (Suc k)
    from 4(5) Suc obtain cur where cur: "cur_chunks_of s c = Inr cur" by fastforce
    have "dims_loop (zip shape specs) [] = Inl e"
    proof (rule 4(1) [of k])
      show "length specs = length shape" using 4 by simp
      show "k < length shape" using 4 Suc by simp
      show "cur_chunks_of (shape ! k) (specs ! k) = Inl e" using 4 Suc by simp
      show "\<forall>j<k. \<exists>cur. cur_chunks_of (shape ! j) (specs ! j) = Inr cur"
        using 4(5) Suc by (metis Suc_less_eq nth_Cons_Suc)
    qed
    then show ?thesis by (simp add: dims_loop_Cons cur del: dims_loop.simps)
  qed
qed simp_all

lemma dims_loop_some_error:
  assumes "length specs = length shape" and "i < length shape"
    and "cur_chunks_of (shape ! i) (specs ! i) = Inl e"
  shows "\<exists>e'. dims_loop (zip shape specs) [] = Inl e'"
proof (cases "dims_loop (zip shape specs) []")
  case (Inl e')
  then show ?thesis by blast
next
  case (Inr out)
  with assms show ?thesis by (simp add: dims_loop_Inr_iff)
qed

lemma normalize_chunks_specs:
  "normalize_chunks chunks shape =
     (case dim_specs chunks (length shape) of
        None \<Rightarrow> Inl TypeError
      | Some specs \<Rightarrow>
          if length specs \<noteq> length shape then Inl ValueError
          else dims_loop (zip shape specs) [])"
proof (cases "rebind_chunks chunks (length shape)")
  case (Inl e)
  then have "e = TypeError" by (cases chunks) auto
  with Inl show ?thesis by (simp add: normalize_chunks_def dim_specs_def)
next
  case (Inr chunks')
  show ?thesis
  proof (cases "seq_items chunks'")
    case (Inl e)
    then have "e = TypeError" by (cases chunks') auto
    with Inl Inr show ?thesis by (simp add: normalize_chunks_def dim_specs_def)
  next
    case r: (Inr specs)
    with Inr show ?thesis by (simp add: normalize_chunks_def dim_specs_def)
  qed
qed

lemma normalize_chunks_Inr_iff:
  "normalize_chunks chunks shape = Inr out \<longleftrightarrow>
     (\<exists>specs. dim_specs chunks (length shape) = Some specs \<and>
        length specs = length shape \<and> length out = length shape \<and>
        (\<forall>i < length shape. cur_chunks_of (shape ! i) (specs ! i) = Inr (out ! i)))"
  by (auto simp: normalize_chunks_specs dims_loop_Inr_iff split: option.splits)


subsection \<open>The loop over the entries of a nested sequence\<close>

lemma entries_loop_append:
  "entries_loop (xs @ ys) cur ni =
     (case entries_loop xs cur ni of
        Inl e \<Rightarrow> Inl e
      | Inr st \<Rightarrow> entries_loop ys (fst st) (snd st))"
  by (induction xs arbitrary: cur ni) (auto split: option.splits)

lemma entries_loop_whole:
  "map whole cs = map Some vs \<Longrightarrow>
   entries_loop cs cur ni =
     (if list_ex (\<lambda>v. v < 0) vs then Inl ValueError else Inr (cur @ vs, ni))"
proof (induction cs arbitrary: vs cur)
  case Nil
  then show ?case by simp
next
  case (Cons c cs)
  then obtain v vs' where vs: "vs = v # vs'" and v: "whole c = Some v"
    and rest: "map whole cs = map Some vs'"
    by (cases vs) auto
  show ?case using Cons.IH [OF rest, of "cur @ [v]"] by (simp add: vs v)
qed

lemma entries_loop_None:
  "entries_loop (PNone # cs) cur None = entries_loop cs (cur @ [0]) (Some (length cur))"
  "entries_loop (PNone # cs) cur (Some i) = Inl TypeError"
  by simp_all

lemma entries_loop_error_kind:
  "entries_loop cs cur ni = Inl e \<Longrightarrow> e = TypeError \<or> e = ValueError"
  by (induction cs arbitrary: cur ni) (auto split: option.splits if_splits)

lemma entries_loop_ValueError:
  "entries_loop cs cur ni = Inl ValueError \<Longrightarrow> \<exists>c \<in> set cs. \<exists>n. whole c = Some n \<and> n < 0"
  by (induction cs arbitrary: cur ni) (auto split: option.splits if_splits)

lemma entries_loop_keeps_index:
  "entries_loop cs cur (Some i) = Inr (cur', ni') \<Longrightarrow>
   ni' = Some i \<and> PNone \<notin> set cs \<and> (\<exists>vs. cur' = cur @ vs)"
proof (induction cs arbitrary: cur)
  case Nil
  then show ?case by simp
next
  case (Cons c cs)
  show ?case
  proof (cases "whole c")
    case None
    with Cons.prems show ?thesis by (simp split: if_splits)
  next
    case (Some n)
    with Cons.prems have "entries_loop cs (cur @ [n]) (Some i) = Inr (cur', ni')"
      by (simp split: if_splits)
    from Cons.IH [OF this] Some show ?thesis by auto
  qed
qed

lemma entries_loop_sets_index:
  "entries_loop cs cur None = Inr (cur', ni') \<Longrightarrow> PNone \<in> set cs \<Longrightarrow>
   \<exists>i. ni' = Some i \<and> i < length cur' \<and> cur' ! i = 0"
proof (induction cs arbitrary: cur)
  case Nil
  then show ?case by simp
next
  case (Cons c cs)
  show ?case
  proof (cases "whole c")
    case (Some n)
    then have "c \<noteq> PNone" by auto
    with Cons.prems Some have "entries_loop cs (cur @ [n]) None = Inr (cur', ni')"
      and "PNone \<in> set cs" by (auto split: if_splits)
    then show ?thesis by (rule Cons.IH)
  next
    case None
    with Cons.prems have c: "c = PNone"
      and run: "entries_loop cs (cur @ [0]) (Some (length cur)) = Inr (cur', ni')"
      by (auto split: if_splits)
    from entries_loop_keeps_index [OF run] obtain vs
      where "ni' = Some (length cur)" and "cur' = (cur @ [0]) @ vs" by blast
    then show ?thesis by (simp add: nth_append)
  qed
qed

lemma entries_loop_no_index:
  "entries_loop cs cur None = Inr (cur', ni') \<Longrightarrow> PNone \<notin> set cs \<Longrightarrow> ni' = None"
proof (induction cs arbitrary: cur)
  case Nil
  then show ?case by simp
next
  case (Cons c cs)
  then show ?case by (cases "whole c") (auto split: if_splits)
qed

lemma sum_list_update_int:
  fixes xs :: "int list"
  shows "i < length xs \<Longrightarrow> sum_list (xs[i := v]) = sum_list xs - xs ! i + v"
proof (induction xs arbitrary: i)
  case Nil
  then show ?case by simp
next
  case (Cons x xs)
  then show ?case by (cases i) auto
qed

lemma two_placeholders_fail:
  "PNone \<in> set xs \<Longrightarrow> \<exists>e. entries_loop (xs @ PNone # ys) cur None = Inl e"
proof (cases "entries_loop xs cur None")
  case (Inl e)
  then show ?thesis by (simp add: entries_loop_append)
next
  case (Inr st)
  assume "PNone \<in> set xs"
  with Inr obtain i where "snd st = Some i"
    using entries_loop_sets_index [of xs cur "fst st" "snd st"] by auto
  with Inr show ?thesis by (simp add: entries_loop_append)
qed

lemma two_placeholders_TypeError:
  assumes "PNone \<in> set xs" and "\<forall>c \<in> set xs. \<forall>n. whole c = Some n \<longrightarrow> 0 \<le> n"
  shows "entries_loop (xs @ PNone # ys) cur None = Inl TypeError"
proof (cases "entries_loop xs cur None")
  case (Inl e)
  with assms(2) have "e = TypeError"
    using entries_loop_error_kind [of xs cur None e] entries_loop_ValueError [of xs cur None]
    by fastforce
  with Inl show ?thesis by (simp add: entries_loop_append)
next
  case (Inr st)
  with assms(1) obtain i where "snd st = Some i"
    using entries_loop_sets_index [of xs cur "fst st" "snd st"] by auto
  with Inr show ?thesis by (simp add: entries_loop_append)
qed

lemma count_list_two_iff:
  "2 \<le> count_list es x \<longleftrightarrow> (\<exists>xs ys. es = xs @ x # ys \<and> x \<in> set xs)"
proof
  assume "2 \<le> count_list es x"
  then show "\<exists>xs ys. es = xs @ x # ys \<and> x \<in> set xs"
  proof (induction es rule: rev_induct)
    case Nil
    then show ?case by simp
  next
    case (snoc a es)
    show ?case
    proof (cases "a = x")
      case True
      with snoc.prems have "1 \<le> count_list es x" by simp
      then have "x \<in> set es" by (metis count_list_0_iff not_one_le_zero)
      with True show ?thesis by blast
    next
      case False
      with snoc.prems have "2 \<le> count_list es x" by simp
      from snoc.IH [OF this] obtain xs ys where "es = xs @ x # ys" and "x \<in> set xs" by blast
      then have "es @ [a] = xs @ x # (ys @ [a])" by simp
      with \<open>x \<in> set xs\<close> show ?thesis by blast
    qed
  qed
next
  assume "\<exists>xs ys. es = xs @ x # ys \<and> x \<in> set xs"
  then obtain xs ys where es: "es = xs @ x # ys" and "x \<in> set xs" by blast
  then have "1 \<le> count_list xs x" by (metis count_list_0_iff not_less_eq_eq le_zero_eq One_nat_def le_numeral_extra(4) linorder_le_cases)
  then show "2 \<le> count_list es x" by (simp add: es)
qed

subsection \<open>One dimension\<close>

lemma cur_chunks_of_whole:
  "whole spec = Some c \<Longrightarrow> cur_chunks_of sz spec = whole_chunks sz c"
proof (cases spec)
  case (PFloat f)
  assume "whole spec = Some c"
  with PFloat show ?thesis by (cases f) auto
qed auto

lemma cur_chunks_of_explicit:
  assumes "map whole es = map Some vs"
  shows "cur_chunks_of sz (PSeq k es) =
     (if list_ex (\<lambda>v. v < 0) vs then Inl ValueError else Inr vs)"
  by (simp add: entries_loop_whole [OF assms])

lemma cur_chunks_of_placeholder:
  assumes "map whole pre = map Some a" and "map whole post = map Some b"
  shows "cur_chunks_of sz (PSeq k (pre @ PNone # post)) =
     (if list_ex (\<lambda>v. v < 0) (a @ b) \<or> sz - sum_list (a @ b) < 0 then Inl ValueError
      else Inr (a @ (sz - sum_list (a @ b)) # b))"
proof -
  have pre: "entries_loop pre [] None = (if list_ex (\<lambda>v. v < 0) a then Inl ValueError else Inr (a, None))"
    using entries_loop_whole [OF assms(1), of "[]" None] by simp
  have post: "entries_loop post (a @ [0]) (Some (length a)) =
      (if list_ex (\<lambda>v. v < 0) b then Inl ValueError else Inr (a @ 0 # b, Some (length a)))"
    using entries_loop_whole [OF assms(2), of "a @ [0]" "Some (length a)"] by simp
  show ?thesis
    by (simp add: entries_loop_append pre post)
qed

lemma whole_chunks_sum:
  "whole_chunks sz c = Inr cur \<Longrightarrow> 0 \<le> sz \<Longrightarrow> sum_list cur = sz"
proof -
  assume run: "whole_chunks sz c = Inr cur" and sz: "0 \<le> sz"
  from run have c: "0 < c" by (auto simp: whole_chunks_def split: if_splits)
  with sz have "0 \<le> sz div c" by (simp add: pos_imp_zdiv_nonneg_iff)
  then have "int (nat (sz div c)) * c + sz mod c = sz" by simp
  with run c show ?thesis
    by (auto simp: whole_chunks_def sum_list_replicate split: if_splits)
qed

lemma cur_chunks_of_sum:
  assumes "cur_chunks_of sz spec = Inr cur"
    and "spec = PNone \<or> (whole spec \<noteq> None \<and> 0 \<le> sz) \<or> (\<exists>k es. spec = PSeq k es \<and> PNone \<in> set es)"
  shows "sum_list cur = sz"
  using assms(2)
proof (elim disjE conjE exE)
  assume "spec = PNone"
  with assms(1) show ?thesis by auto
next
  assume "whole spec \<noteq> None" and "0 \<le> sz"
  then obtain c where "whole spec = Some c" by blast
  with assms(1) \<open>0 \<le> sz\<close> show ?thesis
    by (simp add: cur_chunks_of_whole whole_chunks_sum)
next
  fix k es
  assume spec: "spec = PSeq k es" and mem: "PNone \<in> set es"
  from assms(1) spec obtain cur' ni where run: "entries_loop es [] None = Inr (cur', ni)"
    and fill: "fill_rest sz (cur', ni) = Inr cur"
    by (auto split: sum.splits)
  from entries_loop_sets_index [OF run mem] obtain i
    where "ni = Some i" and "i < length cur'" and "cur' ! i = 0" by blast
  with fill show ?thesis by (auto simp: sum_list_update_int split: if_splits)
qed

subsection \<open>The whole function, by dimension\<close>

lemma normalize_chunks_nth:
  assumes "normalize_chunks chunks shape = Inr out"
    and "dim_specs chunks (length shape) = Some specs" and "i < length shape"
  shows "cur_chunks_of (shape ! i) (specs ! i) = Inr (out ! i)"
  using assms by (auto simp: normalize_chunks_Inr_iff)

lemma normalize_chunks_first_error:
  assumes "dim_specs chunks (length shape) = Some specs" and "length specs = length shape"
    and "i < length shape" and "cur_chunks_of (shape ! i) (specs ! i) = Inl e"
    and "\<forall>j < i. \<exists>cur. cur_chunks_of (shape ! j) (specs ! j) = Inr cur"
  shows "normalize_chunks chunks shape = Inl e"
  using assms by (simp add: normalize_chunks_specs dims_loop_first_error)

lemma normalize_chunks_some_error:
  assumes "dim_specs chunks (length shape) = Some specs"
    and "i < length shape" and "cur_chunks_of (shape ! i) (specs ! i) = Inl e"
  shows "\<exists>e'. normalize_chunks chunks shape = Inl e'"
proof (cases "normalize_chunks chunks shape")
  case (Inl e')
  then show ?thesis by blast
next
  case (Inr out)
  from normalize_chunks_nth [OF Inr assms(1,2)] assms(3) show ?thesis by simp
qed

lemma normalize_chunks_accepts:
  assumes "dim_specs chunks (length shape) = Some specs" and "length specs = length shape"
    and "\<forall>i < length shape. \<exists>cur. cur_chunks_of (shape ! i) (specs ! i) = Inr cur"
  shows "\<exists>out. normalize_chunks chunks shape = Inr out"
proof -
  from assms(3) obtain f
    where f: "\<forall>i < length shape. cur_chunks_of (shape ! i) (specs ! i) = Inr (f i)"
    by metis
  define out where "out = map f [0..<length shape]"
  have "length out = length shape" by (simp add: out_def)
  moreover have "\<forall>i < length shape. cur_chunks_of (shape ! i) (specs ! i) = Inr (out ! i)"
    using f by (simp add: out_def)
  ultimately have "dims_loop (zip shape specs) [] = Inr out"
    using dims_loop_Inr_iff [OF assms(2), of out] by blast
  with assms(1,2) have "normalize_chunks chunks shape = Inr out"
    by (simp add: normalize_chunks_specs)
  then show ?thesis by blast
qed

lemma dim_specs_number:
  "is_number c \<Longrightarrow> dim_specs c n = Some (replicate n c)"
  by (cases c) (auto simp: dim_specs_def)

lemma dim_specs_seq:
  "dim_specs (PSeq k xs) n = Some xs"
  by (simp add: dim_specs_def)

text \<open>The values a sequence without placeholder leaves in \<open>cur_chunks\<close>.\<close>

lemma entries_loop_values:
  "entries_loop es cur ni = Inr (cur', ni') \<Longrightarrow> PNone \<notin> set es \<Longrightarrow>
   \<exists>vs. cur' = cur @ vs \<and> map whole es = map Some vs"
proof (induction es arbitrary: cur)
  case Nil
  then show ?case by simp
next
  case (Cons c es)
  show ?case
  proof (cases "whole c")
    case None
    with Cons.prems show ?thesis by (simp split: if_splits)
  next
    case (Some n)
    with Cons.prems have "entries_loop es (cur @ [n]) ni = Inr (cur', ni')"
      and "PNone \<notin> set es" by (auto split: if_splits)
    from Cons.IH [OF this] obtain vs where "cur' = (cur @ [n]) @ vs"
      and "map whole es = map Some vs" by blast
    with Some have "cur' = cur @ (n # vs) \<and> map whole (c # es) = map Some (n # vs)" by simp
    then show ?thesis by blast
  qed
qed

section \<open>The claims about \<open>normalize_chunks\<close>\<close>

text \<open>
  In the theorems below \<open>specs\<close> is the sequence of per-dimension specifications the
  function iterates over (\<open>dim_specs\<close>: the sequence itself, a scalar repeated once per
  dimension, or what \<open>tolist()\<close> yields for an array), and \<open>i\<close> is a dimension. The
  function handles the dimensions in order and ends at the first exception, so the
  exception a dimension raises is the one the call ends with when every earlier dimension
  is accepted: \<open>\<forall>j < i. \<exists>cur. cur_chunks_of (shape ! j) (specs ! j) = Inr cur\<close>.
\<close>

subsection \<open>C1: the sum of a partition\<close>

text \<open>
  Claim C1, as stated: for every accepted pair of chunks and shape, and for every
  dimension, the partition sizes sum to the size of the dimension. It fails for
  \<open>normalize_chunks([(1, 2)], (10,))\<close>, which is accepted and returns the given entries,
  of sum 3: a nested sequence with no placeholder is never compared with the size
  (lines 190-197 run only when \<open>none_index\<close> is set), and neither is an array.
\<close>

theorem sum_counterexample:
  "normalize_chunks (PSeq PyList [PSeq PyTuple [PInt 1, PInt 2]]) [10] = Inr [[1, 2]]
   \<and> sum_list ([[1, 2]] ! 0) \<noteq> [10 :: int] ! 0"
  by (simp add: normalize_chunks_def)

text \<open>
  Claim C1, amended. In every result of \<open>normalize_chunks\<close>, the partition sizes of a
  dimension sum to its size when the specification of the dimension is \<open>None\<close>, a whole
  number (for a size that is not negative), or a nested sequence that contains a
  placeholder. The partition of a nested sequence without placeholder is the sequence
  of its entries as integers, and the partition of an integer array is its list of
  entries, whatever their sum.
\<close>

theorem partition_sums:
  assumes "normalize_chunks chunks shape = Inr out"
    and "dim_specs chunks (length shape) = Some specs" and "i < length shape"
  shows "(specs ! i = PNone \<or> (whole (specs ! i) \<noteq> None \<and> 0 \<le> shape ! i)
          \<or> (\<exists>k es. specs ! i = PSeq k es \<and> PNone \<in> set es)
        \<longrightarrow> sum_list (out ! i) = shape ! i)
     \<and> (\<forall>k es. specs ! i = PSeq k es \<and> PNone \<notin> set es \<longrightarrow> map whole es = map Some (out ! i))
     \<and> (\<forall>sh items. specs ! i = PIntArray sh items \<longrightarrow> out ! i = items)"
proof (intro conjI allI impI)
  note step = normalize_chunks_nth [OF assms]
  show "sum_list (out ! i) = shape ! i"
    if "specs ! i = PNone \<or> (whole (specs ! i) \<noteq> None \<and> 0 \<le> shape ! i)
          \<or> (\<exists>k es. specs ! i = PSeq k es \<and> PNone \<in> set es)"
    using cur_chunks_of_sum [OF step that] .
  show "map whole es = map Some (out ! i)" if "specs ! i = PSeq k es \<and> PNone \<notin> set es" for k es
  proof -
    from that step obtain cur' ni where run: "entries_loop es [] None = Inr (cur', ni)"
      and fill: "fill_rest (shape ! i) (cur', ni) = Inr (out ! i)"
      by (auto split: sum.splits)
    from entries_loop_no_index [OF run] that have "ni = None" by simp
    with fill have "cur' = out ! i" by simp
    with run that show ?thesis using entries_loop_values [of es "[]" None cur' ni] by auto
  qed
  show "out ! i = items" if "specs ! i = PIntArray sh items" for sh items
    using step that by (auto split: if_splits)
qed

theorem partition_sums_witness:
  "normalize_chunks (PSeq PyList [PNone, PInt 3, PSeq PyTuple [PInt 5, PNone, PInt 2]]) [10, 10, 20]
     = Inr [[10], [3, 3, 3, 1], [5, 13, 2]]
   \<and> sum_list ([[10], [3, 3, 3, 1], [5, 13, 2]] ! 0) = [10, 10, 20 :: int] ! 0
   \<and> sum_list ([[10], [3, 3, 3, 1], [5, 13, 2]] ! 1) = [10, 10, 20 :: int] ! 1
   \<and> sum_list ([[10], [3, 3, 3, 1], [5, 13, 2]] ! 2) = [10, 10, 20 :: int] ! 2"
proof -
  let ?specs = "[PNone, PInt 3, PSeq PyTuple [PInt 5, PNone, PInt 2]]"
  let ?shape = "[10, 10, 20 :: int]"
  have r: "normalize_chunks (PSeq PyList ?specs) ?shape = Inr [[10], [3, 3, 3, 1], [5, 13, 2]]"
    by code_simp
  have s: "dim_specs (PSeq PyList ?specs) (length ?shape) = Some ?specs"
    by (simp add: dim_specs_def)
  have i0: "0 < length ?shape" and i1: "1 < length ?shape" and i2: "2 < length ?shape"
    by simp_all
  from partition_sums [OF r s i0] partition_sums [OF r s i1] partition_sums [OF r s i2] r
  show ?thesis by simp
qed

subsection \<open>C2: a chunk size of zero or less\<close>

text \<open>
  Claim C2: a dimension whose specification is a whole number \<open>c\<close> with \<open>c <= 0\<close> makes
  \<open>normalize_chunks\<close> fail with \<open>ValueError\<close>. The test of line 163 is \<open>chunk < 0\<close>, under
  the message "Chunksize must be greater than 0", so a chunk size of 0 passes it and
  \<open>divmod(size, 0)\<close> of line 165 raises \<open>ZeroDivisionError\<close>: \<open>normalize_chunks(0, (10,))\<close>
  and \<open>normalize_chunks((0.0,), (10,))\<close> end with \<open>ZeroDivisionError\<close>, while
  \<open>normalize_chunks(-3, (10,))\<close> ends with \<open>ValueError\<close>.
\<close>

theorem zero_chunk_size:
  "normalize_chunks (PInt 0) [10] = Inl ZeroDivisionError
   \<and> normalize_chunks (PSeq PyTuple [PFloat (FWhole 0)]) [10] = Inl ZeroDivisionError
   \<and> normalize_chunks (PInt (- 3)) [10] = Inl ValueError"
  by (simp add: normalize_chunks_def whole_chunks_def)

text \<open>
  For any input: the first dimension to fail ends the call with \<open>ValueError\<close> when its
  specification is a negative whole number, and with \<open>ZeroDivisionError\<close> when it is zero.
\<close>

lemma negative_chunk_size:
  assumes "dim_specs chunks (length shape) = Some specs" and "length specs = length shape"
    and "i < length shape" and "whole (specs ! i) = Some c" and "c < 0"
    and "\<forall>j < i. \<exists>cur. cur_chunks_of (shape ! j) (specs ! j) = Inr cur"
  shows "normalize_chunks chunks shape = Inl ValueError"
proof -
  have "cur_chunks_of (shape ! i) (specs ! i) = Inl ValueError"
    using assms(4,5) by (simp add: cur_chunks_of_whole whole_chunks_def)
  from normalize_chunks_first_error [OF assms(1,2,3) this assms(6)] show ?thesis .
qed

lemma zero_chunk_size_general:
  assumes "dim_specs chunks (length shape) = Some specs" and "length specs = length shape"
    and "i < length shape" and "whole (specs ! i) = Some 0"
    and "\<forall>j < i. \<exists>cur. cur_chunks_of (shape ! j) (specs ! j) = Inr cur"
  shows "normalize_chunks chunks shape = Inl ZeroDivisionError"
proof -
  have "cur_chunks_of (shape ! i) (specs ! i) = Inl ZeroDivisionError"
    using assms(4) by (simp add: cur_chunks_of_whole whole_chunks_def)
  from normalize_chunks_first_error [OF assms(1,2,3) this assms(5)] show ?thesis .
qed

subsection \<open>C3: one placeholder\<close>

text \<open>
  Claim C3. Let the specification of a dimension be a nested sequence with exactly one
  placeholder, the entries before it being the whole numbers \<open>a\<close> and those after it the
  whole numbers \<open>b\<close>. In every result of \<open>normalize_chunks\<close> the partition of the
  dimension is the entries with the placeholder replaced by the size minus the sum of the
  other entries; the dimension is accepted when no entry is negative and that difference
  is not negative; when the difference is negative the dimension raises \<open>ValueError\<close>, the
  call fails, and it fails with \<open>ValueError\<close> when every earlier dimension is accepted.
  Example: \<open>normalize_chunks((5, (5, None)), (10, 20))\<close> is \<open>[[5, 5], [5, 15]]\<close>.
\<close>

theorem placeholder_resolved:
  assumes "dim_specs chunks (length shape) = Some specs" and "length specs = length shape"
    and "i < length shape" and "specs ! i = PSeq k (pre @ PNone # post)"
    and "map whole pre = map Some a" and "map whole post = map Some b"
  shows "(\<forall>out. normalize_chunks chunks shape = Inr out \<longrightarrow>
            out ! i = a @ (shape ! i - sum_list (a @ b)) # b)
     \<and> ((\<forall>v \<in> set (a @ b). 0 \<le> v) \<and> 0 \<le> shape ! i - sum_list (a @ b) \<longrightarrow>
            cur_chunks_of (shape ! i) (specs ! i) = Inr (a @ (shape ! i - sum_list (a @ b)) # b))
     \<and> (shape ! i - sum_list (a @ b) < 0 \<longrightarrow>
            cur_chunks_of (shape ! i) (specs ! i) = Inl ValueError
          \<and> (\<exists>e. normalize_chunks chunks shape = Inl e)
          \<and> ((\<forall>j < i. \<exists>cur. cur_chunks_of (shape ! j) (specs ! j) = Inr cur) \<longrightarrow>
                normalize_chunks chunks shape = Inl ValueError))
     \<and> normalize_chunks (PSeq PyTuple [PInt 5, PSeq PyTuple [PInt 5, PNone]]) [10, 20]
          = Inr [[5, 5], [5, 15]]"
proof -
  let ?fill = "shape ! i - sum_list (a @ b)"
  have step: "cur_chunks_of (shape ! i) (specs ! i) =
      (if list_ex (\<lambda>v. v < 0) (a @ b) \<or> ?fill < 0 then Inl ValueError
       else Inr (a @ ?fill # b))"
    using cur_chunks_of_placeholder [OF assms(5,6)] assms(4) by simp
  have 1: "out ! i = a @ ?fill # b" if "normalize_chunks chunks shape = Inr out" for out
    using normalize_chunks_nth [OF that assms(1,3)] step by (simp split: if_splits)
  have 2: "cur_chunks_of (shape ! i) (specs ! i) = Inr (a @ ?fill # b)"
    if "(\<forall>v \<in> set (a @ b). 0 \<le> v) \<and> 0 \<le> ?fill"
  proof -
    from that have "\<not> list_ex (\<lambda>v. v < 0) (a @ b)"
      unfolding list_ex_iff by fastforce
    with that step show ?thesis by simp
  qed
  have 3: "cur_chunks_of (shape ! i) (specs ! i) = Inl ValueError" if "?fill < 0"
    using step that by simp
  have 4: "\<exists>e. normalize_chunks chunks shape = Inl e" if "?fill < 0"
    using normalize_chunks_some_error [OF assms(1,3) 3 [OF that]] .
  have 5: "normalize_chunks chunks shape = Inl ValueError"
    if "?fill < 0" and "\<forall>j < i. \<exists>cur. cur_chunks_of (shape ! j) (specs ! j) = Inr cur"
    using normalize_chunks_first_error [OF assms(1,2,3) 3 [OF that(1)] that(2)] .
  have 6: "normalize_chunks (PSeq PyTuple [PInt 5, PSeq PyTuple [PInt 5, PNone]]) [10, 20]
          = Inr [[5, 5], [5, 15]]"
    by code_simp
  from 1 2 3 4 5 6 show ?thesis by blast
qed

theorem placeholder_resolved_witness:
  "normalize_chunks (PSeq PyList [PInt 5, PSeq PyTuple [PFloat (FWhole 5), PNone, PInt 2]]) [10, 20]
     = Inr [[5, 5], [5, 13, 2]]
   \<and> [[5, 5], [5, 13, 2]] ! 1 = [5] @ ([10, 20 :: int] ! 1 - sum_list ([5] @ [2])) # [2]
   \<and> [10, 7 :: int] ! 1 - sum_list ([5] @ [3]) < 0
   \<and> normalize_chunks (PSeq PyList [PNone, PSeq PyList [PInt 5, PNone, PInt 3]]) [10, 7]
     = Inl ValueError"
proof -
  let ?s1 = "[PInt 5, PSeq PyTuple [PFloat (FWhole 5), PNone, PInt 2]]"
  let ?s2 = "[PNone, PSeq PyList [PInt 5, PNone, PInt 3]]"
  have d1: "dim_specs (PSeq PyList ?s1) (length [10, 20 :: int]) = Some ?s1"
    and d2: "dim_specs (PSeq PyList ?s2) (length [10, 7 :: int]) = Some ?s2"
    by (simp_all add: dim_specs_def)
  have l1: "length ?s1 = length [10, 20 :: int]" and l2: "length ?s2 = length [10, 7 :: int]"
    by simp_all
  have i1: "1 < length [10, 20 :: int]" and i2: "1 < length [10, 7 :: int]" by simp_all
  have e1: "?s1 ! 1 = PSeq PyTuple ([PFloat (FWhole 5)] @ PNone # [PInt 2])"
    and e2: "?s2 ! 1 = PSeq PyList ([PInt 5] @ PNone # [PInt 3])" by simp_all
  have w5f: "map whole [PFloat (FWhole 5)] = map Some [5]"
    and w2: "map whole [PInt 2] = map Some [2]"
    and w5: "map whole [PInt 5] = map Some [5]"
    and w3: "map whole [PInt 3] = map Some [3]" by simp_all
  have r: "normalize_chunks (PSeq PyList ?s1) [10, 20] = Inr [[5, 5], [5, 13, 2]]"
    by code_simp
  have acc: "\<forall>j < 1. \<exists>cur. cur_chunks_of ([10, 7] ! j) (?s2 ! j) = Inr cur" by simp
  from placeholder_resolved [OF d1 l1 i1 e1 w5f w2] placeholder_resolved [OF d2 l2 i2 e2 w5 w3] r acc
  show ?thesis by simp
qed

subsection \<open>C4: a whole-number chunk size\<close>

text \<open>
  Claim C4. A dimension of size \<open>s\<close> whose specification is a whole number \<open>c > 0\<close> is
  accepted, and in every result of \<open>normalize_chunks\<close> its partition is \<open>s div c\<close> chunks
  of size \<open>c\<close> (\<open>div\<close> rounds down; the sizes of a shape are not negative), followed by one
  chunk of size \<open>s mod c\<close> if and only if \<open>s mod c\<close> is not zero.
  Example: \<open>normalize_chunks(10, (10, 20))\<close> is \<open>[[10], [10, 10]]\<close>.
\<close>

theorem whole_number_chunks:
  assumes "dim_specs chunks (length shape) = Some specs" and "i < length shape"
    and "whole (specs ! i) = Some c" and "0 < c"
  shows "cur_chunks_of (shape ! i) (specs ! i) =
       Inr (replicate (nat (shape ! i div c)) c
            @ (if shape ! i mod c \<noteq> 0 then [shape ! i mod c] else []))
     \<and> (\<forall>out. normalize_chunks chunks shape = Inr out \<longrightarrow>
          out ! i = replicate (nat (shape ! i div c)) c
                    @ (if shape ! i mod c \<noteq> 0 then [shape ! i mod c] else []))
     \<and> normalize_chunks (PInt 10) [10, 20] = Inr [[10], [10, 10]]"
proof (intro conjI allI impI)
  show step: "cur_chunks_of (shape ! i) (specs ! i) =
       Inr (replicate (nat (shape ! i div c)) c
            @ (if shape ! i mod c \<noteq> 0 then [shape ! i mod c] else []))"
    using assms(3,4) by (simp add: cur_chunks_of_whole whole_chunks_def)
  show "normalize_chunks (PInt 10) [10, 20] = Inr [[10], [10, 10]]"
    by code_simp
  fix out
  assume "normalize_chunks chunks shape = Inr out"
  from normalize_chunks_nth [OF this assms(1,2)] step
  show "out ! i = replicate (nat (shape ! i div c)) c
                    @ (if shape ! i mod c \<noteq> 0 then [shape ! i mod c] else [])"
    by simp
qed

theorem whole_number_chunks_witness:
  "normalize_chunks (PSeq PyTuple [PFloat (FWhole 4), PInt 7]) [10, 21] = Inr [[4, 4, 2], [7, 7, 7]]
   \<and> [[4, 4, 2], [7, 7, 7 :: int]] ! 0
       = replicate (nat ([10, 21] ! 0 div 4)) 4 @ [[10, 21 :: int] ! 0 mod 4]
   \<and> [[4, 4, 2], [7, 7, 7 :: int]] ! 1 = replicate (nat ([10, 21] ! 1 div 7)) 7
   \<and> [10, 21 :: int] ! 1 mod 7 = 0"
proof -
  let ?specs = "[PFloat (FWhole 4), PInt 7]"
  have r: "normalize_chunks (PSeq PyTuple ?specs) [10, 21] = Inr [[4, 4, 2], [7, 7, 7]]"
    by code_simp
  have s: "dim_specs (PSeq PyTuple ?specs) (length [10, 21 :: int]) = Some ?specs"
    by (simp add: dim_specs_def)
  have w0: "whole (?specs ! 0) = Some 4" and w1: "whole (?specs ! 1) = Some 7" by simp_all
  have i0: "0 < length [10, 21 :: int]" and i1: "1 < length [10, 21 :: int]" by simp_all
  from whole_number_chunks [OF s i0 w0] whole_number_chunks [OF s i1 w1] r
  show ?thesis by (simp add: numeral_2_eq_2 numeral_3_eq_3)
qed

subsection \<open>C5: a scalar is broadcast\<close>

text \<open>
  Claim C5. For every shape and every scalar chunk size \<open>c\<close> (an instance of
  \<open>Number\<close>), \<open>normalize_chunks(c, shape)\<close> returns what \<open>normalize_chunks\<close> returns
  for the tuple that repeats \<open>c\<close> once per dimension of the shape: the same result or the
  same exception.
\<close>

theorem scalar_broadcast:
  assumes "is_number c"
  shows "normalize_chunks c shape =
     normalize_chunks (PSeq PyTuple (replicate (length shape) c)) shape"
  using assms by (cases c) (simp_all add: normalize_chunks_def)

theorem scalar_broadcast_witness:
  "is_number (PInt 10)
   \<and> normalize_chunks (PInt 10) [10, 20] = normalize_chunks (PSeq PyTuple [PInt 10, PInt 10]) [10, 20]
   \<and> normalize_chunks (PSeq PyTuple [PInt 10, PInt 10]) [10, 20] = Inr [[10], [10, 10]]"
proof -
  have n: "is_number (PInt 10)" by simp
  have r: "normalize_chunks (PSeq PyTuple [PInt 10, PInt 10]) [10, 20] = Inr [[10], [10, 10]]"
    by code_simp
  from scalar_broadcast [OF n, of "[10, 20]"] n r show ?thesis
    by (simp add: numeral_2_eq_2)
qed

subsection \<open>C6: two placeholders\<close>

text \<open>
  Claim C6, as stated: a nested sequence with two or more placeholders makes
  \<open>normalize_chunks\<close> fail with \<open>TypeError\<close>. The entries are handled in order, and a
  negative whole number before the second placeholder raises \<open>ValueError\<close> first (line
  176): \<open>normalize_chunks([(-1, None, None)], (10,))\<close> ends with \<open>ValueError\<close>.
\<close>

theorem two_placeholders_counterexample:
  "2 \<le> count_list [PInt (- 1), PNone, PNone] PNone
   \<and> normalize_chunks (PSeq PyList [PSeq PyTuple [PInt (- 1), PNone, PNone]]) [10] = Inl ValueError
   \<and> normalize_chunks (PSeq PyList [PSeq PyTuple [PInt (- 1), PNone, PNone]]) [10] \<noteq> Inl TypeError"
  by (simp add: normalize_chunks_def)

text \<open>
  Claim C6, amended. If the nested sequence of a dimension contains two or more
  placeholders, \<open>normalize_chunks\<close> fails, and that dimension raises \<open>TypeError\<close> or
  \<open>ValueError\<close>. It raises \<open>TypeError\<close> when no whole number before a repeated placeholder
  is negative, and then the call fails with \<open>TypeError\<close> when every earlier dimension is
  accepted. (\<open>count_list_two_iff\<close>: a sequence has two or more placeholders exactly when
  it is \<open>xs @ PNone # ys\<close> with a placeholder in \<open>xs\<close>.)
\<close>

theorem two_placeholders:
  assumes "dim_specs chunks (length shape) = Some specs" and "length specs = length shape"
    and "i < length shape" and "specs ! i = PSeq k es" and "2 \<le> count_list es PNone"
  shows "(\<exists>e. normalize_chunks chunks shape = Inl e)
     \<and> (cur_chunks_of (shape ! i) (specs ! i) = Inl TypeError
          \<or> cur_chunks_of (shape ! i) (specs ! i) = Inl ValueError)
     \<and> (\<forall>xs ys. es = xs @ PNone # ys \<and> PNone \<in> set xs
            \<and> (\<forall>c \<in> set xs. \<forall>n. whole c = Some n \<longrightarrow> 0 \<le> n) \<longrightarrow>
            cur_chunks_of (shape ! i) (specs ! i) = Inl TypeError
          \<and> ((\<forall>j < i. \<exists>cur. cur_chunks_of (shape ! j) (specs ! j) = Inr cur) \<longrightarrow>
                normalize_chunks chunks shape = Inl TypeError))"
proof -
  from assms(5) obtain xs0 ys0 where es: "es = xs0 @ PNone # ys0" and mem: "PNone \<in> set xs0"
    unfolding count_list_two_iff by blast
  from two_placeholders_fail [OF mem, of ys0 "[]"] obtain e
    where run: "entries_loop es [] None = Inl e" unfolding es by blast
  then have step: "cur_chunks_of (shape ! i) (specs ! i) = Inl e"
    using assms(4) by simp
  from entries_loop_error_kind [OF run] have kind: "e = TypeError \<or> e = ValueError" .
  have 1: "\<exists>e. normalize_chunks chunks shape = Inl e"
    using normalize_chunks_some_error [OF assms(1,3) step] .
  have 2: "cur_chunks_of (shape ! i) (specs ! i) = Inl TypeError
          \<or> cur_chunks_of (shape ! i) (specs ! i) = Inl ValueError"
    using step kind by auto
  have 3: "cur_chunks_of (shape ! i) (specs ! i) = Inl TypeError"
    if "es = xs @ PNone # ys" and "PNone \<in> set xs"
      and "\<forall>c \<in> set xs. \<forall>n. whole c = Some n \<longrightarrow> 0 \<le> n" for xs ys
    using two_placeholders_TypeError [OF that(2,3), of ys "[]"] assms(4) that(1) by simp
  have 4: "normalize_chunks chunks shape = Inl TypeError"
    if "es = xs @ PNone # ys" and "PNone \<in> set xs"
      and "\<forall>c \<in> set xs. \<forall>n. whole c = Some n \<longrightarrow> 0 \<le> n"
      and "\<forall>j < i. \<exists>cur. cur_chunks_of (shape ! j) (specs ! j) = Inr cur" for xs ys
    using normalize_chunks_first_error [OF assms(1,2,3) 3 [OF that(1,2,3)] that(4)] .
  from 1 2 3 4 show ?thesis by blast
qed

theorem two_placeholders_witness:
  "2 \<le> count_list [PInt 3, PNone, PNone, PInt 4] PNone
   \<and> normalize_chunks (PSeq PyList [PInt 5, PSeq PyTuple [PInt 3, PNone, PNone, PInt 4]]) [10, 20]
     = Inl TypeError"
proof -
  let ?es = "[PInt 3, PNone, PNone, PInt 4]"
  let ?specs = "[PInt 5, PSeq PyTuple ?es]"
  have d: "dim_specs (PSeq PyList ?specs) (length [10, 20 :: int]) = Some ?specs"
    by (simp add: dim_specs_def)
  have l: "length ?specs = length [10, 20 :: int]" by simp
  have i: "1 < length [10, 20 :: int]" by simp
  have e: "?specs ! 1 = PSeq PyTuple ?es" by simp
  have c: "2 \<le> count_list ?es PNone" by simp
  have dec: "?es = [PInt 3, PNone] @ PNone # [PInt 4]" by simp
  have m: "PNone \<in> set [PInt 3, PNone]" by simp
  have nn: "\<forall>c \<in> set [PInt 3, PNone]. \<forall>n. whole c = Some n \<longrightarrow> 0 \<le> n" by simp
  have acc: "\<forall>j < 1. \<exists>cur. cur_chunks_of ([10, 20] ! j) (?specs ! j) = Inr cur"
    by (simp add: whole_chunks_def)
  from two_placeholders [OF d l i e c] dec m nn acc c show ?thesis by blast
qed

subsection \<open>C7: an absent specification\<close>

text \<open>
  Claim C7. A dimension whose specification is \<open>None\<close> is always accepted, and in every
  result of \<open>normalize_chunks\<close> its partition is the one-element list holding the full
  size of the dimension.
\<close>

theorem absent_spec:
  assumes "dim_specs chunks (length shape) = Some specs" and "i < length shape"
    and "specs ! i = PNone"
  shows "cur_chunks_of (shape ! i) (specs ! i) = Inr [shape ! i]
     \<and> (\<forall>out. normalize_chunks chunks shape = Inr out \<longrightarrow> out ! i = [shape ! i])"
proof (intro conjI allI impI)
  show step: "cur_chunks_of (shape ! i) (specs ! i) = Inr [shape ! i]"
    using assms(3) by simp
  fix out
  assume "normalize_chunks chunks shape = Inr out"
  from normalize_chunks_nth [OF this assms(1,2)] step show "out ! i = [shape ! i]"
    by simp
qed

theorem absent_spec_witness:
  "normalize_chunks (PSeq PyList [PNone, PSeq PyTuple [PInt 5, PInt 15]]) [10, 20]
     = Inr [[10], [5, 15]]
   \<and> [[10], [5, 15]] ! 0 = [[10, 20 :: int] ! 0]"
proof -
  let ?chunks = "PSeq PyList [PNone, PSeq PyTuple [PInt 5, PInt 15]]"
  have r: "normalize_chunks ?chunks [10, 20] = Inr [[10], [5, 15]]"
    by (simp add: normalize_chunks_def)
  have s: "dim_specs ?chunks (length [10, 20 :: int]) = Some [PNone, PSeq PyTuple [PInt 5, PInt 15]]"
    by (simp add: dim_specs_def)
  have "[PNone, PSeq PyTuple [PInt 5, PInt 15]] ! 0 = PNone" by simp
  from absent_spec [OF s _ this] r show ?thesis by simp
qed

subsection \<open>C8: an array as the specification of a dimension\<close>

text \<open>
  Claim C8. When the specification of a dimension is a numpy array and every earlier
  dimension is accepted, \<open>normalize_chunks\<close> fails with \<open>TypeError\<close> if the dtype of the
  array is not an integer dtype or the array is not one-dimensional, fails with
  \<open>ValueError\<close> if the array is a one-dimensional integer array with a negative entry,
  and otherwise accepts the dimension, whose partition in every result is the list of
  the entries of the array, in order.
\<close>

theorem array_spec:
  assumes "dim_specs chunks (length shape) = Some specs" and "length specs = length shape"
    and "i < length shape"
    and "\<forall>j < i. \<exists>cur. cur_chunks_of (shape ! j) (specs ! j) = Inr cur"
  shows "(\<forall>sh items. specs ! i = POtherArray sh items \<longrightarrow>
            normalize_chunks chunks shape = Inl TypeError)
     \<and> (\<forall>sh items. specs ! i = PIntArray sh items \<and> length sh \<noteq> 1 \<longrightarrow>
            normalize_chunks chunks shape = Inl TypeError)
     \<and> (\<forall>sh items. specs ! i = PIntArray sh items \<and> length sh = 1 \<and> (\<exists>x \<in> set items. x < 0) \<longrightarrow>
            normalize_chunks chunks shape = Inl ValueError)
     \<and> (\<forall>sh items. specs ! i = PIntArray sh items \<and> length sh = 1 \<and> (\<forall>x \<in> set items. 0 \<le> x) \<longrightarrow>
            cur_chunks_of (shape ! i) (specs ! i) = Inr items
          \<and> (\<forall>out. normalize_chunks chunks shape = Inr out \<longrightarrow> out ! i = items))"
proof -
  note err = normalize_chunks_first_error [OF assms(1,2,3) _ assms(4)]
  have 1: "normalize_chunks chunks shape = Inl TypeError"
    if "specs ! i = POtherArray sh items" for sh items
    by (rule err) (simp add: that)
  have 2: "normalize_chunks chunks shape = Inl TypeError"
    if "specs ! i = PIntArray sh items \<and> length sh \<noteq> 1" for sh items
    by (rule err) (use that in auto)
  have 3: "normalize_chunks chunks shape = Inl ValueError"
    if "specs ! i = PIntArray sh items \<and> length sh = 1 \<and> (\<exists>x \<in> set items. x < 0)" for sh items
    by (rule err) (use that in \<open>auto simp: list_ex_iff\<close>)
  have 4: "cur_chunks_of (shape ! i) (specs ! i) = Inr items"
    if "specs ! i = PIntArray sh items \<and> length sh = 1 \<and> (\<forall>x \<in> set items. 0 \<le> x)" for sh items
  proof -
    from that have "\<not> list_ex (\<lambda>x. x < 0) items" unfolding list_ex_iff by fastforce
    with that show ?thesis by simp
  qed
  have 5: "out ! i = items"
    if "specs ! i = PIntArray sh items \<and> length sh = 1 \<and> (\<forall>x \<in> set items. 0 \<le> x)"
      and "normalize_chunks chunks shape = Inr out" for sh items out
    using normalize_chunks_nth [OF that(2) assms(1,3)] 4 [OF that(1)] by simp
  from 1 2 3 4 5 show ?thesis by blast
qed

theorem array_spec_witness:
  "normalize_chunks (PSeq PyList [PNone, POtherArray [2] [PFloat (FWhole 5), PFloat (FWhole 5)]]) [10, 10]
     = Inl TypeError
   \<and> normalize_chunks (PSeq PyList [PNone, PIntArray [2, 1] [5, 5]]) [10, 10] = Inl TypeError
   \<and> normalize_chunks (PSeq PyList [PNone, PIntArray [] [10]]) [10, 10] = Inl TypeError
   \<and> normalize_chunks (PSeq PyList [PNone, PIntArray [2] [11, - 1]]) [10, 10] = Inl ValueError
   \<and> normalize_chunks (PSeq PyList [PNone, PIntArray [3] [2, 0, 3]]) [10, 10] = Inr [[10], [2, 0, 3]]
   \<and> [[10], [2, 0, 3 :: int]] ! 1 = [2, 0, 3]"
proof -
  let ?shape = "[10, 10 :: int]"
  have acc: "\<forall>j < 1. \<exists>cur. cur_chunks_of (?shape ! j) ([PNone, a] ! j) = Inr cur" for a
    by simp
  have d: "dim_specs (PSeq PyList [PNone, a]) (length ?shape) = Some [PNone, a]" for a
    by (simp add: dim_specs_def)
  have l: "length [PNone, a] = length ?shape" for a :: pyval by simp
  have i: "1 < length ?shape" by simp
  note th = array_spec [OF d l i acc]
  have r: "normalize_chunks (PSeq PyList [PNone, PIntArray [3] [2, 0, 3]]) [10, 10] = Inr [[10], [2, 0, 3]]"
    by code_simp
  from th [of "POtherArray [2] [PFloat (FWhole 5), PFloat (FWhole 5)]"]
    th [of "PIntArray [2, 1] [5, 5]"] th [of "PIntArray [] [10]"]
    th [of "PIntArray [2] [11, - 1]"] th [of "PIntArray [3] [2, 0, 3]"] r
  show ?thesis by simp
qed

subsection \<open>C9: explicit sizes are not checked against the size\<close>

text \<open>
  Claim C9. A dimension whose specification is a list or tuple of whole numbers, none
  negative and with no placeholder, is accepted whatever the size of the dimension; in
  every result of \<open>normalize_chunks\<close> its partition is exactly those entries as integers,
  in order; and the call returns a result when the other dimensions are accepted. The
  sum of the entries is not compared with the size: it may be smaller or larger.
\<close>

theorem explicit_sizes:
  assumes "dim_specs chunks (length shape) = Some specs" and "length specs = length shape"
    and "i < length shape" and "specs ! i = PSeq k es"
    and "map whole es = map Some vs" and "\<forall>v \<in> set vs. 0 \<le> v"
  shows "(\<forall>sz. cur_chunks_of sz (specs ! i) = Inr vs)
     \<and> (\<forall>out. normalize_chunks chunks shape = Inr out \<longrightarrow> out ! i = vs)
     \<and> ((\<forall>j < length shape. j \<noteq> i \<longrightarrow> (\<exists>cur. cur_chunks_of (shape ! j) (specs ! j) = Inr cur))
          \<longrightarrow> (\<exists>out. normalize_chunks chunks shape = Inr out \<and> out ! i = vs))"
proof -
  have nonneg: "\<not> list_ex (\<lambda>v. v < 0) vs"
    using assms(6) by (auto simp: list_ex_iff)
  have step: "cur_chunks_of sz (specs ! i) = Inr vs" for sz
    using cur_chunks_of_explicit [OF assms(5), of sz k] nonneg assms(4) by simp
  have nth: "out ! i = vs" if "normalize_chunks chunks shape = Inr out" for out
    using normalize_chunks_nth [OF that assms(1,3)] step by simp
  have "\<exists>out. normalize_chunks chunks shape = Inr out \<and> out ! i = vs"
    if others: "\<forall>j < length shape. j \<noteq> i \<longrightarrow> (\<exists>cur. cur_chunks_of (shape ! j) (specs ! j) = Inr cur)"
  proof -
    have "\<forall>j < length shape. \<exists>cur. cur_chunks_of (shape ! j) (specs ! j) = Inr cur"
      using others step by metis
    from normalize_chunks_accepts [OF assms(1,2) this] nth show ?thesis by blast
  qed
  with step nth show ?thesis by blast
qed

theorem explicit_sizes_witness:
  "normalize_chunks (PSeq PyList [PSeq PyTuple [PInt 1, PFloat (FWhole 2)], PSeq PyList [PInt 7, PInt 8]]) [10, 10]
     = Inr [[1, 2], [7, 8]]
   \<and> sum_list ([[1, 2], [7, 8]] ! 0) < [10, 10 :: int] ! 0
   \<and> sum_list ([[1, 2], [7, 8]] ! 1) > [10, 10 :: int] ! 1"
proof -
  let ?specs = "[PSeq PyTuple [PInt 1, PFloat (FWhole 2)], PSeq PyList [PInt 7, PInt 8]]"
  have s: "dim_specs (PSeq PyList ?specs) (length [10, 10 :: int]) = Some ?specs"
    by (simp add: dim_specs_def)
  have l: "length ?specs = length [10, 10 :: int]" by simp
  have i0: "0 < length [10, 10 :: int]" and i1: "1 < length [10, 10 :: int]" by simp_all
  have e0: "?specs ! 0 = PSeq PyTuple [PInt 1, PFloat (FWhole 2)]"
    and e1: "?specs ! 1 = PSeq PyList [PInt 7, PInt 8]" by simp_all
  have w0: "map whole [PInt 1, PFloat (FWhole 2)] = map Some [1, 2]"
    and w1: "map whole [PInt 7, PInt 8] = map Some [7, 8]" by simp_all
  have p0: "\<forall>v \<in> set [1, 2 :: int]. 0 \<le> v" and p1: "\<forall>v \<in> set [7, 8 :: int]. 0 \<le> v" by simp_all
  have r: "normalize_chunks (PSeq PyList ?specs) [10, 10] = Inr [[1, 2], [7, 8]]"
    by code_simp
  from explicit_sizes [OF s l i0 e0 w0 p0] explicit_sizes [OF s l i1 e1 w1 p1] r
  show ?thesis by simp
qed

section \<open>The claim about the masks\<close>

text \<open>
  Claim C10. For each of the four mask variants, \<open>__invert__\<close> returns a mask that wraps
  the same object, with the complement flag flipped and the structure and value flags
  unchanged; inverting the result gives back a mask of the original class around the same
  object.
\<close>

theorem mask_invert_involution:
  assumes "is_variant m"
  shows "\<exists>m'. invert m = Inr m' \<and> mask_of m' = mask_of m
     \<and> complement_flag m' = (\<not> complement_flag m)
     \<and> structure_flag m' = structure_flag m \<and> value_flag m' = value_flag m
     \<and> is_variant m' \<and> invert m' = Inr m"
  using assms by (cases m) simp_all

theorem mask_invert_involution_witness:
  "is_variant (StructuralMask (7::nat))
   \<and> invert (StructuralMask (7::nat)) = Inr (ComplementedStructuralMask 7)
   \<and> invert (ComplementedStructuralMask (7::nat)) = Inr (StructuralMask 7)
   \<and> invert (ValueMask (7::nat)) = Inr (ComplementedValueMask 7)
   \<and> invert (ComplementedValueMask (7::nat)) = Inr (ValueMask 7)"
  using mask_invert_involution [of "StructuralMask (7::nat)"]
    mask_invert_involution [of "ValueMask (7::nat)"]
  by simp

end
